theory Spec2Isabelle
  imports Main "HOL-Library.Sublist"
begin

section \<open>Python strings and the runtime's Unicode tables\<close>

text \<open>
  A Python \<open>str\<close> is a sequence of Unicode code points; a code point is modelled as a
  natural number, so that the two non-Latin characters of the size pattern (U+221A and
  U+00F3) are ordinary values. \<open>lit\<close> reads an ASCII literal of the source.
\<close>

type_synonym pystr = "nat list"

definition lit :: "string \<Rightarrow> pystr" where
  "lit s = map of_char s"

text \<open>
  The case mappings and character categories of code points from 128 on come from the
  Unicode database of the Python runtime, which is not part of the repository: they are a
  parameter of the model. For ASCII the model writes the mappings out. \<open>lower_full\<close> sees
  the characters before and after the one it maps (Python lowers a capital sigma by its
  context).
\<close>

record ucd =
  lower_full :: "pystr \<Rightarrow> nat \<Rightarrow> pystr \<Rightarrow> pystr"
  upper_full :: "nat \<Rightarrow> pystr"
  lower_simple :: "nat \<Rightarrow> nat"
  is_decimal :: "nat \<Rightarrow> bool"

definition ascii_lower :: "nat \<Rightarrow> nat" where
  "ascii_lower c = (if 65 \<le> c \<and> c \<le> 90 then c + 32 else c)"

definition ascii_upper :: "nat \<Rightarrow> nat" where
  "ascii_upper c = (if 97 \<le> c \<and> c \<le> 122 then c - 32 else c)"

text \<open>\<open>str.lower()\<close>: each character is replaced by its lower-case mapping.\<close>

fun lower_from :: "ucd \<Rightarrow> pystr \<Rightarrow> pystr \<Rightarrow> pystr" where
  "lower_from U pre [] = []"
| "lower_from U pre (c # cs) =
     (if c < 128 then [ascii_lower c] else lower_full U pre c cs) @ lower_from U (pre @ [c]) cs"

definition py_lower :: "ucd \<Rightarrow> pystr \<Rightarrow> pystr" where
  "py_lower U s = lower_from U [] s"

text \<open>\<open>str.upper()\<close>.\<close>

definition upper_char :: "ucd \<Rightarrow> nat \<Rightarrow> pystr" where
  "upper_char U c = (if c < 128 then [ascii_upper c] else upper_full U c)"

definition py_upper :: "ucd \<Rightarrow> pystr \<Rightarrow> pystr" where
  "py_upper U s = concat (map (upper_char U) s)"

text \<open>
  An excerpt of the Unicode database, with the Latin-1 letters, the code points whose
  mapping contains an ASCII letter and three blocks of decimal digits. It instantiates the
  parameter at concrete inputs.
\<close>

definition ucd_excerpt :: ucd where
  "ucd_excerpt = \<lparr>
     lower_full = (\<lambda>pre c post.
       if c = 0x130 then [0x69, 0x307]
       else if c = 0x212A then [0x6B]
       else if 0xC0 \<le> c \<and> c \<le> 0xDE \<and> c \<noteq> 0xD7 then [c + 32]
       else [c]),
     upper_full = (\<lambda>c.
       if c = 0xDF then [0x53, 0x53]
       else if c = 0x17F then [0x53]
       else if c = 0x131 then [0x49]
       else if c = 0xB5 then [0x39C]
       else if c = 0xFF then [0x178]
       else if 0xE0 \<le> c \<and> c \<le> 0xFE \<and> c \<noteq> 0xF7 then [c - 32]
       else [c]),
     lower_simple = (\<lambda>c.
       if c = 0x130 then 0x69
       else if c = 0x212A then 0x6B
       else if 0xC0 \<le> c \<and> c \<le> 0xDE \<and> c \<noteq> 0xD7 then c + 32
       else c),
     is_decimal = (\<lambda>c.
       (0x660 \<le> c \<and> c \<le> 0x669) \<or> (0x966 \<le> c \<and> c \<le> 0x96F) \<or> (0xFF10 \<le> c \<and> c \<le> 0xFF19)) \<rparr>"

section \<open>Keyword classifiers\<close>

text \<open>
  \<open>_detect_material\<close>: the dictionary literal is iterated in insertion order, so it is an
  association list. The text is lowered once; the keywords are used as written.
  \<open>kw in text_lower\<close> is the contiguous-sublist test.
\<close>

definition materials :: "(pystr \<times> pystr list) list" where
  "materials =
     [(lit ''polyester'', [lit ''polyester'', lit ''poly'']),
      (lit ''nylon'', [lit ''nylon'']),
      (lit ''cotton'', [lit ''cotton'']),
      (lit ''PVC'', [lit ''PVC'', lit ''vinyl''])]"

fun material_loop :: "pystr \<Rightarrow> (pystr \<times> pystr list) list \<Rightarrow> pystr option" where
  "material_loop text_lower [] = None"
| "material_loop text_lower ((mat, keywords) # rest) =
     (if list_ex (\<lambda>kw. sublist kw text_lower) keywords then Some mat
      else material_loop text_lower rest)"

definition detect_material :: "ucd \<Rightarrow> pystr \<Rightarrow> pystr option" where
  "detect_material U text = (let text_lower = py_lower U text in material_loop text_lower materials)"

text \<open>\<open>_detect_vehicle_type\<close>: both the text and each keyword are upper-cased.\<close>

definition types :: "(pystr \<times> pystr list) list" where
  "types =
     [(lit ''SUV'', [lit ''SUV'', lit ''sport utility'']),
      (lit ''sedan'', [lit ''sedan'']),
      (lit ''hatchback'', [lit ''hatchback'', lit ''hatch'']),
      (lit ''universal'', [lit ''universal'', lit ''all cars'', lit ''fit all''])]"

fun vehicle_loop :: "ucd \<Rightarrow> pystr \<Rightarrow> (pystr \<times> pystr list) list \<Rightarrow> pystr option" where
  "vehicle_loop U text_upper [] = None"
| "vehicle_loop U text_upper ((v_type, keywords) # rest) =
     (if list_ex (\<lambda>kw. sublist (py_upper U kw) text_upper) keywords then Some v_type
      else vehicle_loop U text_upper rest)"

definition detect_vehicle_type :: "ucd \<Rightarrow> pystr \<Rightarrow> pystr option" where
  "detect_vehicle_type U text = (let text_upper = py_upper U text in vehicle_loop U text_upper types)"

section \<open>Regular expressions\<close>

text \<open>
  The fragment of Python's \<open>re\<close> syntax that the three patterns of the source use: a
  character test, greedy repetition of a character test (\<open>*\<close> and \<open>+\<close>), sequence,
  alternation and a numbered capturing group.
\<close>

datatype regex =
    Eps
  | Chr "nat \<Rightarrow> bool"
  | Star "nat \<Rightarrow> bool"
  | Plus "nat \<Rightarrow> bool"
  | Seq regex regex
  | Alt regex regex
  | Grp nat regex

type_synonym caps = "(nat \<times> pystr) list"

text \<open>
  \<open>greedy p s\<close> lists what can remain of \<open>s\<close> after a greedy run of characters that
  satisfy \<open>p\<close>, the longest run first: the order in which a backtracking matcher tries them.
\<close>

fun greedy :: "(nat \<Rightarrow> bool) \<Rightarrow> pystr \<Rightarrow> pystr list" where
  "greedy p [] = [[]]"
| "greedy p (c # cs) = (if p c then greedy p cs @ [c # cs] else [c # cs])"

text \<open>
  \<open>re_match r s caps\<close> lists every way to match \<open>r\<close> at the start of \<open>s\<close>, as the captures
  and the rest of the text, in the order of the backtracking search: the head of the list is
  the match the engine returns.
\<close>

fun re_match :: "regex \<Rightarrow> pystr \<Rightarrow> caps \<Rightarrow> (caps \<times> pystr) list" where
  "re_match Eps s caps = [(caps, s)]"
| "re_match (Chr p) s caps = (case s of [] \<Rightarrow> [] | c # cs \<Rightarrow> if p c then [(caps, cs)] else [])"
| "re_match (Star p) s caps = map (Pair caps) (greedy p s)"
| "re_match (Plus p) s caps =
     (case s of [] \<Rightarrow> [] | c # cs \<Rightarrow> if p c then map (Pair caps) (greedy p cs) else [])"
| "re_match (Seq a b) s caps = concat (map (\<lambda>(caps1, s1). re_match b s1 caps1) (re_match a s caps))"
| "re_match (Alt a b) s caps = re_match a s caps @ re_match b s caps"
| "re_match (Grp n r) s caps =
     map (\<lambda>(caps1, s1). ((n, take (length s - length s1) s) # caps1, s1)) (re_match r s caps)"

fun count_groups :: "regex \<Rightarrow> nat" where
  "count_groups (Seq a b) = count_groups a + count_groups b"
| "count_groups (Alt a b) = count_groups a + count_groups b"
| "count_groups (Grp n r) = Suc (count_groups r)"
| "count_groups r = 0"

text \<open>A match object: the matched text, the groups that took part, the pattern's group count.\<close>

record match =
  whole :: pystr
  groups :: caps
  ngroups :: nat

text \<open>\<open>re.search\<close>: the first start position, from the left, at which the pattern matches.\<close>

definition match_at :: "regex \<Rightarrow> pystr \<Rightarrow> match option" where
  "match_at r s =
     (case re_match r s [] of
        [] \<Rightarrow> None
      | (caps1, s1) # _ \<Rightarrow>
          Some \<lparr>whole = take (length s - length s1) s, groups = caps1, ngroups = count_groups r\<rparr>)"

fun re_search :: "regex \<Rightarrow> pystr \<Rightarrow> match option" where
  "re_search r [] = match_at r []"
| "re_search r (c # cs) =
     (case match_at r (c # cs) of Some m \<Rightarrow> Some m | None \<Rightarrow> re_search r cs)"

datatype error = IndexError

text \<open>
  \<open>Match.group(i)\<close>: the whole match for 0, \<open>IndexError\<close> for a group the pattern does not
  have, \<open>None\<close> for a group that did not take part.
\<close>

definition group :: "match \<Rightarrow> nat \<Rightarrow> error + pystr option" where
  "group m i =
     (if i = 0 then Inr (Some (whole m))
      else if ngroups m < i then Inl IndexError
      else Inr (map_of (groups m) i))"

text \<open>A replacement field of an f-string: \<open>None\<close> is formatted as its name.\<close>

fun py_format :: "pystr option \<Rightarrow> pystr" where
  "py_format None = lit ''None''"
| "py_format (Some s) = s"

subsection \<open>Character tests\<close>

text \<open>
  \<open>\d\<close> of a \<open>str\<close> pattern: a Unicode decimal digit. \<open>\s\<close>: Unicode white space, the
  fixed list of the interpreter (\<open>_Py_ascii_whitespace\<close> and \<open>_PyUnicode_IsWhitespace\<close>).
\<close>

definition ascii_digit :: "nat \<Rightarrow> bool" where
  "ascii_digit c = (48 \<le> c \<and> c \<le> 57)"

definition uni_digit :: "ucd \<Rightarrow> nat \<Rightarrow> bool" where
  "uni_digit U c = (if c < 128 then ascii_digit c else is_decimal U c)"

definition uni_space :: "nat \<Rightarrow> bool" where
  "uni_space c =
     ((9 \<le> c \<and> c \<le> 13) \<or> (28 \<le> c \<and> c \<le> 32) \<or> c = 0x85 \<or> c = 0xA0 \<or> c = 0x1680
      \<or> (0x2000 \<le> c \<and> c \<le> 0x200A) \<or> c = 0x2028 \<or> c = 0x2029 \<or> c = 0x202F \<or> c = 0x205F
      \<or> c = 0x3000)"

definition literal :: "nat \<Rightarrow> nat \<Rightarrow> bool" where
  "literal av c = (c = av)"

text \<open>
  A literal under \<open>re.I\<close>: the text's character is lowered by the simple case mapping and
  compared with the lowered literal and with the other lower-case forms the \<open>re\<close> compiler
  lists for it (dotless i for \<open>i\<close>, long s for \<open>s\<close>).
\<close>

definition sre_lower :: "ucd \<Rightarrow> nat \<Rightarrow> nat" where
  "sre_lower U c = (if c < 128 then ascii_lower c else lower_simple U c)"

definition ignorecase_fixes :: "nat \<Rightarrow> nat list" where
  "ignorecase_fixes lo = (if lo = 0x69 then [0x131] else if lo = 0x73 then [0x17F] else [])"

definition literal_ignore :: "ucd \<Rightarrow> nat \<Rightarrow> nat \<Rightarrow> bool" where
  "literal_ignore U av c =
     (let lo = ascii_lower av in sre_lower U c \<in> set (lo # ignorecase_fixes lo))"

fun seqs :: "regex list \<Rightarrow> regex" where
  "seqs [] = Eps"
| "seqs [r] = r"
| "seqs (r # rs) = Seq r (seqs rs)"

definition word :: "pystr \<Rightarrow> regex list" where
  "word w = map (\<lambda>av. Chr (literal av)) w"

definition word_ignore :: "ucd \<Rightarrow> pystr \<Rightarrow> regex list" where
  "word_ignore U w = map (\<lambda>av. Chr (literal_ignore U av)) w"

subsection \<open>The three patterns\<close>

text \<open>
  \<open>(\d+)\s*cm\s*[...]\s*(\d+)\s*cm\<close>, compiled without flags. The character class of the
  source holds \<open>x\<close>, U+221A (square root) and U+00F3 (o with acute).
\<close>

definition separator :: "nat \<Rightarrow> bool" where
  "separator c = (c = 0x78 \<or> c = 0x221A \<or> c = 0xF3)"

definition size_re :: "ucd \<Rightarrow> regex" where
  "size_re U =
     seqs ([Grp 1 (Plus (uni_digit U)), Star uni_space] @ word (lit ''cm'') @
           [Star uni_space, Chr separator, Star uni_space,
            Grp 2 (Plus (uni_digit U)), Star uni_space] @ word (lit ''cm''))"

text \<open>\<open>water\s*proof|rain\s*proof\<close> with \<open>re.I\<close>.\<close>

definition waterproof_re :: "ucd \<Rightarrow> regex" where
  "waterproof_re U =
     Alt (seqs (word_ignore U (lit ''water'') @ [Star uni_space] @ word_ignore U (lit ''proof'')))
         (seqs (word_ignore U (lit ''rain'') @ [Star uni_space] @ word_ignore U (lit ''proof'')))"

text \<open>\<open>UV|ultraviolet|sun\s*protect\<close> with \<open>re.I\<close>.\<close>

definition uv_re :: "ucd \<Rightarrow> regex" where
  "uv_re U =
     Alt (seqs (word_ignore U (lit ''UV'')))
       (Alt (seqs (word_ignore U (lit ''ultraviolet'')))
            (seqs (word_ignore U (lit ''sun'') @ [Star uni_space] @ word_ignore U (lit ''protect''))))"

section \<open>The extraction engine\<close>

text \<open>\<open>_extract_size\<close>.\<close>

definition extract_size :: "ucd \<Rightarrow> pystr \<Rightarrow> error + pystr option" where
  "extract_size U text =
     (case re_search (size_re U) text of
        None \<Rightarrow> Inr None
      | Some size_match \<Rightarrow>
          (case group size_match 1 of
             Inl e \<Rightarrow> Inl e
           | Inr g1 \<Rightarrow>
               (case group size_match 2 of
                  Inl e \<Rightarrow> Inl e
                | Inr g2 \<Rightarrow> Inr (Some (py_format g1 @ lit ''x'' @ py_format g2 @ lit ''cm'')))))"

record specs =
  material :: "pystr option"
  vehicle_type :: "pystr option"
  is_waterproof :: bool
  has_uv_protection :: bool
  size :: "pystr option"

text \<open>\<open>_extract_cover_specs\<close>: \<open>bool\<close> of a match object is true, of \<open>None\<close> false.\<close>

definition extract_cover_specs :: "ucd \<Rightarrow> pystr \<Rightarrow> error + specs" where
  "extract_cover_specs U description =
     (case extract_size U description of
        Inl e \<Rightarrow> Inl e
      | Inr sz \<Rightarrow>
          Inr \<lparr>material = detect_material U description,
               vehicle_type = detect_vehicle_type U description,
               is_waterproof = (re_search (waterproof_re U) description \<noteq> None),
               has_uv_protection = (re_search (uv_re U) description \<noteq> None),
               size = sz\<rparr>)"

section \<open>Declarative reading of the patterns\<close>

text \<open>
  The words a pattern matches, without the search order. The matcher above is compared
  with it below.
\<close>

fun lang :: "regex \<Rightarrow> pystr set" where
  "lang Eps = {[]}"
| "lang (Chr p) = {w. \<exists>c. w = [c] \<and> p c}"
| "lang (Star p) = {w. list_all p w}"
| "lang (Plus p) = {w. w \<noteq> [] \<and> list_all p w}"
| "lang (Seq a b) = {w. \<exists>u v. w = u @ v \<and> u \<in> lang a \<and> v \<in> lang b}"
| "lang (Alt a b) = lang a \<union> lang b"
| "lang (Grp n r) = lang r"

text \<open>
  The spec's wording of the two flag patterns (section 4.3): \<open>m\<close> reads as the word \<open>w\<close> up
  to letter case, as \<open>re.I\<close> compares letters; \<open>ws\<close> is a run of white space; a phrase
  occurs in a text when some contiguous part of the text is the phrase.
\<close>

definition ci_word :: "ucd \<Rightarrow> string \<Rightarrow> pystr \<Rightarrow> bool" where
  "ci_word U w m = list_all2 (literal_ignore U) (lit w) m"

definition spaces :: "pystr \<Rightarrow> bool" where
  "spaces ws = list_all uni_space ws"


definition uv_phrase :: "ucd \<Rightarrow> pystr \<Rightarrow> bool" where
  "uv_phrase U m =
     (ci_word U ''UV'' m \<or> ci_word U ''ultraviolet'' m
      \<or> (\<exists>x ws y. m = x @ ws @ y \<and> ci_word U ''sun'' x \<and> spaces ws \<and> ci_word U ''protect'' y))"

definition occurs_in :: "(pystr \<Rightarrow> bool) \<Rightarrow> pystr \<Rightarrow> bool" where
  "occurs_in P text = (\<exists>a m b. text = a @ m @ b \<and> P m)"

section \<open>Evaluation at concrete inputs\<close>

lemmas model_defs =
  lit_def py_lower_def py_upper_def upper_char_def ascii_lower_def ascii_upper_def
  detect_material_def materials_def detect_vehicle_type_def types_def
  match_at_def group_def uni_digit_def ascii_digit_def uni_space_def literal_def sre_lower_def
  ignorecase_fixes_def literal_ignore_def word_def word_ignore_def separator_def size_re_def
  waterproof_re_def uv_re_def extract_size_def extract_cover_specs_def sublist_code(3)

section \<open>The search finds exactly the occurrences of a pattern\<close>

lemma greedy_set: "set (greedy p s) = {rest. \<exists>w. s = w @ rest \<and> list_all p w}"
proof (induction s)
  case Nil
  then show ?case by auto
next
  case (Cons c cs)
  show ?case
  proof (cases "p c")
    case True
    have "{rest. \<exists>w. c # cs = w @ rest \<and> list_all p w}
        = insert (c # cs) {rest. \<exists>w. cs = w @ rest \<and> list_all p w}"
      using True by (auto simp: Cons_eq_append_conv) 
    then show ?thesis using True Cons by simp
  next
    case False
    have "{rest. \<exists>w. c # cs = w @ rest \<and> list_all p w} = {c # cs}"
      using False by (auto simp: Cons_eq_append_conv)
    then show ?thesis using False by simp
  qed
qed

lemma re_match_rests:
  "snd ` set (re_match r s caps) = {rest. \<exists>w. w \<in> lang r \<and> s = w @ rest}"
proof (induction r arbitrary: s caps)
  case Eps
  then show ?case by auto
next
  case (Chr p)
  then show ?case by (cases s) auto
next
  case (Star p)
  have "snd ` set (map (Pair caps) (greedy p s)) = set (greedy p s)"
    by (force simp: image_iff)
  then show ?case by (auto simp: greedy_set)
next
  case (Plus p)
  show ?case
  proof (cases s)
    case Nil
    then show ?thesis by auto
  next
    case (Cons c cs)
    have im: "snd ` set (map (Pair caps) (greedy p cs)) = set (greedy p cs)"
      by (force simp: image_iff)
    show ?thesis
    proof (cases "p c")
      case True
      have "{rest. \<exists>w. (w \<noteq> [] \<and> list_all p w) \<and> c # cs = w @ rest}
          = {rest. \<exists>w. cs = w @ rest \<and> list_all p w}"
        using True by (auto simp: Cons_eq_append_conv) 
      then show ?thesis using True Cons im by (simp add: greedy_set)
    next
      case False
      then show ?thesis using Cons by (auto simp: Cons_eq_append_conv)
    qed
  qed
next
  case (Seq a b)
  have "snd ` set (re_match (Seq a b) s caps)
      = (\<Union>x \<in> set (re_match a s caps). snd ` set (re_match b (snd x) (fst x)))"
    by (auto simp: case_prod_beta)
  also have "\<dots> = (\<Union>x \<in> set (re_match a s caps). {rest. \<exists>w. w \<in> lang b \<and> snd x = w @ rest})"
    by (simp add: Seq.IH(2))
  also have "\<dots> = (\<Union>s1 \<in> snd ` set (re_match a s caps). {rest. \<exists>w. w \<in> lang b \<and> s1 = w @ rest})"
    by auto
  also have "\<dots> = {rest. \<exists>w. w \<in> lang (Seq a b) \<and> s = w @ rest}"
    unfolding Seq.IH(1) by auto blast+
  finally show ?case .
next
  case (Alt a b)
  then show ?case by (auto simp: image_Un)
next
  case (Grp n r)
  have "snd ` set (re_match (Grp n r) s caps) = snd ` set (re_match r s caps)"
    by (force simp: image_iff case_prod_beta)
  then show ?case using Grp by simp
qed

lemma match_at_iff: "match_at r s \<noteq> None \<longleftrightarrow> (\<exists>w b. s = w @ b \<and> w \<in> lang r)"
proof -
  have "match_at r s \<noteq> None \<longleftrightarrow> snd ` set (re_match r s []) \<noteq> {}"
    by (auto simp: match_at_def split: list.splits)
  then show ?thesis unfolding re_match_rests by auto
qed

lemma re_search_iff: "re_search r s \<noteq> None \<longleftrightarrow> (\<exists>a w b. s = a @ w @ b \<and> w \<in> lang r)"
proof (induction s)
  case Nil
  then show ?case using match_at_iff [of r "[]"] by auto
next
  case (Cons c cs)
  have "re_search r (c # cs) \<noteq> None \<longleftrightarrow> match_at r (c # cs) \<noteq> None \<or> re_search r cs \<noteq> None"
    by (auto split: option.splits)
  also have "\<dots> \<longleftrightarrow> (\<exists>w b. c # cs = w @ b \<and> w \<in> lang r) \<or> (\<exists>a w b. cs = a @ w @ b \<and> w \<in> lang r)"
    using Cons match_at_iff by simp
  also have "\<dots> \<longleftrightarrow> (\<exists>a w b. c # cs = a @ w @ b \<and> w \<in> lang r)"
  proof
    assume "(\<exists>w b. c # cs = w @ b \<and> w \<in> lang r) \<or> (\<exists>a w b. cs = a @ w @ b \<and> w \<in> lang r)"
    then show "\<exists>a w b. c # cs = a @ w @ b \<and> w \<in> lang r"
    proof
      assume "\<exists>w b. c # cs = w @ b \<and> w \<in> lang r"
      then obtain w b where "c # cs = [] @ w @ b" "w \<in> lang r" by auto
      then show ?thesis by blast
    next
      assume "\<exists>a w b. cs = a @ w @ b \<and> w \<in> lang r"
      then obtain a w b where "c # cs = (c # a) @ w @ b" "w \<in> lang r" by auto
      then show ?thesis by blast
    qed
  next
    assume "\<exists>a w b. c # cs = a @ w @ b \<and> w \<in> lang r"
    then obtain a w b where h: "c # cs = a @ w @ b" "w \<in> lang r" by blast
    show "(\<exists>w b. c # cs = w @ b \<and> w \<in> lang r) \<or> (\<exists>a w b. cs = a @ w @ b \<and> w \<in> lang r)"
    proof (cases a)
      case Nil
      then show ?thesis using h by auto
    next
      case (Cons x xs)
      then have "cs = xs @ w @ b" using h by simp
      then show ?thesis using h by blast
    qed
  qed
  finally show ?case .
qed

lemma lang_seqs_Cons:
  "lang (seqs (r # rs)) = {w. \<exists>u v. w = u @ v \<and> u \<in> lang r \<and> v \<in> lang (seqs rs)}"
  by (cases rs) auto

lemma lang_word_ignore_append:
  "lang (seqs (word_ignore U w @ rs))
     = {m. \<exists>x y. m = x @ y \<and> list_all2 (literal_ignore U) w x \<and> y \<in> lang (seqs rs)}"
proof (induction w)
  case Nil
  then show ?case by (simp add: word_ignore_def)
next
  case (Cons av w)
  let ?P = "literal_ignore U"
  have split: "word_ignore U (av # w) @ rs = Chr (?P av) # (word_ignore U w @ rs)"
    by (simp add: word_ignore_def)
  show ?case
  proof (rule set_eqI, rule iffI)
    fix m
    assume "m \<in> lang (seqs (word_ignore U (av # w) @ rs))"
    then obtain u v where m: "m = u @ v" and u: "u \<in> lang (Chr (?P av))"
      and v: "v \<in> lang (seqs (word_ignore U w @ rs))"
      unfolding split lang_seqs_Cons by blast
    from u obtain c where c: "u = [c]" "?P av c" by auto
    from v obtain x y where xy: "v = x @ y" "list_all2 ?P w x" "y \<in> lang (seqs rs)"
      unfolding Cons.IH by blast
    have "m = (c # x) @ y" "list_all2 ?P (av # w) (c # x)"
      using m c xy by simp_all
    then show "m \<in> {m. \<exists>x y. m = x @ y \<and> list_all2 ?P (av # w) x \<and> y \<in> lang (seqs rs)}"
      using xy(3) by blast
  next
    fix m
    assume "m \<in> {m. \<exists>x y. m = x @ y \<and> list_all2 ?P (av # w) x \<and> y \<in> lang (seqs rs)}"
    then obtain x y where xy: "m = x @ y" "list_all2 ?P (av # w) x" "y \<in> lang (seqs rs)"
      by blast
    from xy(2) obtain c x' where c: "x = c # x'" "?P av c" "list_all2 ?P w x'"
      by (auto simp: list_all2_Cons1)
    have "x' @ y \<in> lang (seqs (word_ignore U w @ rs))"
      unfolding Cons.IH using c(3) xy(3) by blast
    moreover have "[c] \<in> lang (Chr (?P av))" using c(2) by simp
    moreover have "m = [c] @ (x' @ y)" using xy(1) c(1) by simp
    ultimately show "m \<in> lang (seqs (word_ignore U (av # w) @ rs))"
      unfolding split lang_seqs_Cons by blast
  qed
qed

lemma lang_word_ignore:
  "lang (seqs (word_ignore U w)) = {m. list_all2 (literal_ignore U) w m}"
  using lang_word_ignore_append [of U w "[]"] by simp

lemma lang_phrase:
  "lang (seqs (word_ignore U w1 @ [Star p] @ word_ignore U w2))
     = {m. \<exists>x ws y. m = x @ ws @ y \<and> list_all2 (literal_ignore U) w1 x \<and> list_all p ws
          \<and> list_all2 (literal_ignore U) w2 y}"
proof -
  have "lang (seqs ([Star p] @ word_ignore U w2))
      = {v. \<exists>ws y. v = ws @ y \<and> list_all p ws \<and> list_all2 (literal_ignore U) w2 y}"
    using lang_seqs_Cons [of "Star p" "word_ignore U w2"] by (auto simp: lang_word_ignore)
  then show ?thesis
    unfolding lang_word_ignore_append by auto
qed


lemma lang_uv_re: "lang (uv_re U) = {m. uv_phrase U m}"
  unfolding uv_re_def uv_phrase_def ci_word_def spaces_def
  by (simp only: lang.simps lang_phrase lang_word_ignore) blast


lemma uv_search:
  "re_search (uv_re U) d \<noteq> None \<longleftrightarrow> occurs_in (uv_phrase U) d"
  unfolding re_search_iff lang_uv_re occurs_in_def by simp

section \<open>No call raises\<close>

lemma ngroups_match_at: "match_at r s = Some m \<Longrightarrow> ngroups m = count_groups r"
  by (auto simp: match_at_def split: list.splits)

lemma ngroups_search: "re_search r s = Some m \<Longrightarrow> ngroups m = count_groups r"
  by (induction s) (auto dest: ngroups_match_at split: option.splits)

lemma count_groups_size_re: "count_groups (size_re U) = 2"
  by (simp add: size_re_def word_def lit_def)

lemma extract_size_total: "\<exists>sz. extract_size U text = Inr sz"
proof (cases "re_search (size_re U) text")
  case None
  then show ?thesis by (simp add: extract_size_def)
next
  case (Some m)
  then have "ngroups m = 2" using ngroups_search count_groups_size_re by simp
  then show ?thesis using Some by (simp add: extract_size_def group_def)
qed

section \<open>The first match of the size pattern\<close>

lemma greedy_first:
  "list_all p w \<Longrightarrow> (rest = [] \<or> \<not> p (hd rest)) \<Longrightarrow> \<exists>t. greedy p (w @ rest) = rest # t"
proof (induction w)
  case Nil
  then show ?case by (cases rest) auto
next
  case (Cons c w)
  then obtain t where "greedy p (w @ rest) = rest # t" by auto
  then show ?case using Cons.prems by simp
qed

lemma group_plus_first:
  assumes "w \<noteq> []" and "list_all p w" and "rest = [] \<or> \<not> p (hd rest)"
  shows "\<exists>t. re_match (Grp n (Plus p)) (w @ rest) caps = ((n, w) # caps, rest) # t"
proof -
  from assms(1) obtain c w' where w: "w = c # w'" by (cases w) auto
  then have "list_all p w'" "p c" using assms(2) by simp_all
  then obtain t where "greedy p (w' @ rest) = rest # t"
    using greedy_first assms(3) by blast
  then show ?thesis using w \<open>p c\<close> by simp
qed

lemma seq_first:
  assumes "re_match a s caps = (caps1, s1) # t" and "re_match b s1 caps1 = y # t'"
  shows "\<exists>t''. re_match (Seq a b) s caps = y # t''"
  using assms by simp

lemma re_search_first: "match_at r s = Some m \<Longrightarrow> re_search r s = Some m"
  by (cases s) simp_all

lemma digit_not_space: "ascii_digit c \<Longrightarrow> \<not> uni_space c"
  by (simp add: ascii_digit_def uni_space_def)

lemma digits_uni: "list_all ascii_digit w \<Longrightarrow> list_all (uni_digit U) w"
  by (induction w) (simp_all add: uni_digit_def ascii_digit_def)

lemma middle_first:
  assumes "\<not> uni_space sep" and "separator sep" and "ascii_digit h"
  shows "re_match (Seq (Star uni_space) (Seq (Chr (literal 99)) (Seq (Chr (literal 109))
           (Seq (Star uni_space) (Seq (Chr separator) (Seq (Star uni_space) X))))))
           (99 # 109 # 32 # sep # 32 # h # T) caps
         = re_match X (h # T) caps @ re_match X (32 # h # T) caps"
proof -
  have fixed: "\<not> uni_space 99" "uni_space 32" "\<not> separator 32"
    by (simp_all add: uni_space_def separator_def)
  have "\<not> uni_space h" using assms(3) by (rule digit_not_space)
  then show ?thesis using assms(1,2) fixed by (simp add: literal_def)
qed

lemma size_match_at:
  assumes W: "W \<noteq> []" "list_all ascii_digit W" and H: "H \<noteq> []" "list_all ascii_digit H"
    and sep: "sep = 0x78 \<or> sep = 0x221A \<or> sep = 0xF3"
  shows "match_at (size_re U) (W @ lit ''cm '' @ [sep] @ lit '' '' @ H @ lit ''cm'')
         = Some \<lparr>whole = W @ lit ''cm '' @ [sep] @ lit '' '' @ H @ lit ''cm'',
                 groups = [(2, H), (1, W)], ngroups = 2\<rparr>"
proof -
  let ?sp = "Star uni_space"
  let ?c = "Chr (literal 99)"
  let ?m = "Chr (literal 109)"
  let ?tail = "Seq ?sp (Seq ?c ?m)"
  let ?g2 = "Seq (Grp 2 (Plus (uni_digit U))) ?tail"
  let ?mid = "Seq ?sp (Seq ?c (Seq ?m (Seq ?sp (Seq (Chr separator) (Seq ?sp ?g2)))))"
  let ?R = "99 # 109 # 32 # sep # 32 # H @ [99, 109]"
  from H obtain h H' where h: "H = h # H'" "ascii_digit h" by (cases H) auto
  have pat: "size_re U = Seq (Grp 1 (Plus (uni_digit U))) ?mid"
    by (simp add: size_re_def word_def lit_def)
  have input: "W @ lit ''cm '' @ [sep] @ lit '' '' @ H @ lit ''cm'' = W @ ?R"
    by (simp add: lit_def)
  have nsp: "\<not> uni_space sep" "separator sep"
    using sep by (auto simp: uni_space_def separator_def)
  obtain t1 where 1: "re_match (Grp 1 (Plus (uni_digit U))) (W @ ?R) [] = ([(1, W)], ?R) # t1"
    using group_plus_first [of W "uni_digit U" ?R 1 "[]"] W digits_uni
    by (auto simp: uni_digit_def ascii_digit_def)
  obtain t2 where 2: "re_match (Grp 2 (Plus (uni_digit U))) (H @ [99, 109]) [(1, W)]
      = ([(2, H), (1, W)], [99, 109]) # t2"
    using group_plus_first [of H "uni_digit U" "[99, 109]" 2 "[(1, W)]"] H digits_uni
    by (auto simp: uni_digit_def ascii_digit_def)
  have 3: "re_match ?tail [99, 109] [(2, H), (1, W)] = [([(2, H), (1, W)], [])]"
    by (simp add: uni_space_def literal_def)
  obtain t4 where 4: "re_match ?g2 (H @ [99, 109]) [(1, W)] = ([(2, H), (1, W)], []) # t4"
    using seq_first [OF 2 3] by blast
  have "re_match ?mid ?R [(1, W)]
      = re_match ?g2 (H @ [99, 109]) [(1, W)] @ re_match ?g2 (32 # H @ [99, 109]) [(1, W)]"
    unfolding h(1) append_Cons by (rule middle_first [OF nsp h(2)])
  then obtain t5 where 5: "re_match ?mid ?R [(1, W)] = ([(2, H), (1, W)], []) # t5"
    unfolding 4 by simp
  obtain t6 where "re_match (size_re U) (W @ ?R) [] = ([(2, H), (1, W)], []) # t6"
    unfolding pat using seq_first [OF 1 5] by blast
  then show ?thesis
    unfolding input by (simp add: match_at_def count_groups_size_re)
qed

text \<open>Every text the size pattern matches holds a character of the separator class.\<close>

lemma size_lang_has_separator:
  assumes "w \<in> lang (size_re U)"
  shows "\<exists>c. c \<in> set w \<and> separator c"
proof -
  let ?sp = "Star uni_space"
  obtain rest where pat: "size_re U = Seq (Grp 1 (Plus (uni_digit U))) (Seq ?sp
      (Seq (Chr (literal 99)) (Seq (Chr (literal 109)) (Seq ?sp (Seq (Chr separator) rest)))))"
    by (simp add: size_re_def word_def lit_def)
  show ?thesis using assms unfolding pat by auto
qed

lemma no_separator_no_size:
  assumes "\<forall>c. c \<in> set text \<longrightarrow> \<not> separator c"
  shows "extract_size U text = Inr None"
proof -
  have "re_search (size_re U) text = None"
  proof (rule ccontr)
    assume "re_search (size_re U) text \<noteq> None"
    then obtain a w b where "text = a @ w @ b" and "w \<in> lang (size_re U)"
      unfolding re_search_iff by blast
    then show False using size_lang_has_separator assms by fastforce
  qed
  then show ?thesis by (simp add: extract_size_def)
qed

lemma digit_not_separator: "ascii_digit c \<Longrightarrow> \<not> separator c"
  by (simp add: ascii_digit_def separator_def)

section \<open>Lowering keeps ASCII keywords\<close>

lemma ascii_lower_ascii: "ascii_lower c < 128 \<Longrightarrow> c < 128"
  by (simp add: ascii_lower_def split: if_splits)

lemma lower_from_ascii:
  "\<forall>c\<in>set m. c < 128 \<Longrightarrow> lower_from U pre (m @ b) = map ascii_lower m @ lower_from U (pre @ m) b"
  by (induction m arbitrary: pre) simp_all

lemma lower_from_keeps:
  "\<forall>c\<in>set m. c < 128 \<Longrightarrow> sublist (map ascii_lower m) (lower_from U pre (a @ m @ b))"
proof (induction a arbitrary: pre)
  case Nil
  then show ?case by (simp add: lower_from_ascii)
next
  case (Cons c a)
  then have "sublist (map ascii_lower m) (lower_from U (pre @ [c]) (a @ m @ b))" by simp
  then obtain ps ss where "lower_from U (pre @ [c]) (a @ m @ b) = ps @ map ascii_lower m @ ss"
    by (auto simp: sublist_def)
  then have "lower_from U pre ((c # a) @ m @ b)
      = ((if c < 128 then [ascii_lower c] else lower_full U pre c (a @ m @ b)) @ ps) @ map ascii_lower m @ ss"
    by simp
  then show ?case unfolding sublist_def by blast
qed

lemma map_sublist_split:
  assumes "sublist kw (map f text)"
  shows "\<exists>a m b. text = a @ m @ b \<and> map f m = kw"
proof -
  from assms obtain ps ss where "map f text = ps @ kw @ ss"
    by (auto simp: sublist_def)
  then obtain a rest where 1: "text = a @ rest" and 2: "map f rest = kw @ ss"
    by (metis map_eq_append_conv)
  from 2 obtain m b where "rest = m @ b" "map f m = kw"
    by (metis map_eq_append_conv)
  then show ?thesis using 1 by blast
qed

lemma sublist_py_lower:
  assumes "sublist kw (map ascii_lower text)" and "\<forall>k\<in>set kw. k < 128"
  shows "sublist kw (py_lower U text)"
proof -
  from assms(1) obtain a m b where t: "text = a @ m @ b" and m: "map ascii_lower m = kw"
    using map_sublist_split by blast
  have "\<forall>c\<in>set m. c < 128"
    using assms(2) m ascii_lower_ascii by auto
  then show ?thesis
    unfolding py_lower_def t using lower_from_keeps [of m U "[]" a b] m by simp
qed

lemma uv_letters:
  assumes "map ascii_lower m = lit ''uv''"
  shows "ci_word U ''UV'' m"
proof -
  from assms obtain u v where m: "m = [u, v]" and u: "ascii_lower u = 117" and v: "ascii_lower v = 118"
    by (auto simp: lit_def)
  have "u < 128" "v < 128" using u v by (auto intro: ascii_lower_ascii)
  then show ?thesis
    using u v by (simp add: ci_word_def m lit_def literal_ignore_def sre_lower_def ascii_lower_def)
qed

section \<open>The claims\<close>

text \<open>
  C1. The dimension parser is said to be case-insensitive in the unit and the separator, so
  that \<open>150CM X 120CM\<close> gives \<open>150x120cm\<close>. The size pattern is compiled without
  \<open>re.I\<close> (the two flag patterns are compiled with it): the upper-case text is not matched,
  whether the unit, the separator or both are in upper case, and only the lower-case text
  gives the size.
\<close>

theorem size_upper_case_unmatched:
  "extract_size U (lit ''150CM X 120CM'') = Inr None
   \<and> extract_size U (lit ''150cm X 120cm'') = Inr None
   \<and> extract_size U (lit ''150CM x 120CM'') = Inr None
   \<and> extract_size U (lit ''150cm x 120cm'') = Inr (Some (lit ''150x120cm''))"
  by (simp add: model_defs)

text \<open>
  C2. A text with \<open>PVC\<close> in any letter case and no keyword of an earlier label is said to
  be classified as PVC. The text is lowered and the keyword \<open>PVC\<close> is not (the vehicle
  classifier upper-cases both sides), so the keyword never occurs in the lowered text: the
  label PVC is reached through \<open>vinyl\<close> only.
\<close>

theorem pvc_keyword_unmatched:
  "detect_material U (lit ''PVC car cover'') = None
   \<and> detect_material U (lit ''pvc car cover'') = None
   \<and> detect_material U (lit ''Pvc'') = None
   \<and> detect_material U (lit ''Vinyl car cover'') = Some (lit ''PVC'')"
  by (simp add: model_defs)

text \<open>
  C3. Totality: for every description the extraction returns a record. The model is a
  total recursive function (the matcher recurses on the pattern and on the text), and the
  only operation that can raise, \<open>group\<close> of a number the pattern does not have, is never
  reached with such a number: the result is never an error.
\<close>

theorem extract_total: "\<exists>r. extract_cover_specs U description = Inr r"
proof -
  obtain sz where "extract_size U description = Inr sz" using extract_size_total by blast
  then show ?thesis by (simp add: extract_cover_specs_def)
qed

text \<open>
  C5. Material precedence: a text that contains \<open>poly\<close> and \<open>nylon\<close>, in any letter case,
  is classified as polyester, the first label of the dictionary, and not as nylon.
\<close>

theorem material_precedence:
  assumes "sublist (lit ''poly'') (map ascii_lower text)"
    and "sublist (lit ''nylon'') (map ascii_lower text)"
  shows "detect_material U text = Some (lit ''polyester'')
         \<and> detect_material U text \<noteq> Some (lit ''nylon'')"
proof -
  have "sublist (lit ''poly'') (py_lower U text)"
    using assms(1) by (rule sublist_py_lower) (simp add: lit_def)
  then have "detect_material U text = Some (lit ''polyester'')"
    by (simp add: detect_material_def materials_def)
  then show ?thesis by (simp add: lit_def)
qed

theorem material_precedence_witness:
  "sublist (lit ''poly'') (map ascii_lower (lit ''Nylon and POLY blend''))
   \<and> sublist (lit ''nylon'') (map ascii_lower (lit ''Nylon and POLY blend''))
   \<and> detect_material ucd_excerpt (lit ''Nylon and POLY blend'') = Some (lit ''polyester'')
   \<and> detect_material ucd_excerpt (lit ''Nylon and POLY blend'') \<noteq> Some (lit ''nylon'')"
proof -
  have a: "sublist (lit ''poly'') (map ascii_lower (lit ''Nylon and POLY blend''))"
    by (simp add: lit_def ascii_lower_def sublist_code(3))
  have b: "sublist (lit ''nylon'') (map ascii_lower (lit ''Nylon and POLY blend''))"
    by (simp add: lit_def ascii_lower_def sublist_code(3))
  show ?thesis using a b material_precedence [OF a b, of ucd_excerpt] by blast
qed

text \<open>
  C6. The end-to-end scenario of the spec: material polyester, vehicle type universal, both
  flags true, size \<open>200x180cm\<close>.
\<close>

theorem end_to_end_scenario:
  "extract_cover_specs U
     (lit ''Waterproof polyester car cover, universal fit, UV protection, 200cm x 180cm'')
   = Inr \<lparr>material = Some (lit ''polyester''), vehicle_type = Some (lit ''universal''),
           is_waterproof = True, has_uv_protection = True, size = Some (lit ''200x180cm'')\<rparr>"
  by (simp add: model_defs)

text \<open>
  C7. The empty description: no material, no vehicle type, both flags false, no size.
\<close>

theorem empty_description:
  "extract_cover_specs U []
   = Inr \<lparr>material = None, vehicle_type = None, is_waterproof = False,
           has_uv_protection = False, size = None\<rparr>"
  by (simp add: model_defs)



text \<open>
  C9. The separator class of the size pattern is exactly \<open>x\<close>, U+221A and U+00F3: a text
  of the form digits, \<open>cm\<close>, space, one character, space, digits, \<open>cm\<close> (the unit in lower
  case) gives the two digit groups joined as \<open>WxHcm\<close> when the character is one of the
  three, U+221A and U+00F3 included, and gives no size for any other character.
\<close>

theorem size_separators:
  assumes "W \<noteq> []" and "list_all ascii_digit W" and "H \<noteq> []" and "list_all ascii_digit H"
  shows "extract_size U (W @ lit ''cm '' @ [c] @ lit '' '' @ H @ lit ''cm'')
         = (if c = 0x78 \<or> c = 0x221A \<or> c = 0xF3 then Inr (Some (W @ lit ''x'' @ H @ lit ''cm''))
            else Inr None)"
proof (cases "c = 0x78 \<or> c = 0x221A \<or> c = 0xF3")
  case True
  then have "re_search (size_re U) (W @ lit ''cm '' @ [c] @ lit '' '' @ H @ lit ''cm'')
      = Some \<lparr>whole = W @ lit ''cm '' @ [c] @ lit '' '' @ H @ lit ''cm'',
               groups = [(2, H), (1, W)], ngroups = 2\<rparr>"
    using assms by (intro re_search_first size_match_at)
  then show ?thesis using True by (simp add: extract_size_def group_def)
next
  case False
  then have c: "\<not> separator c" by (simp add: separator_def)
  have fixed: "\<not> separator 99" "\<not> separator 109" "\<not> separator 32"
    by (simp_all add: separator_def)
  have "\<forall>d. d \<in> set (W @ lit ''cm '' @ [c] @ lit '' '' @ H @ lit ''cm'') \<longrightarrow> \<not> separator d"
    using assms(2,4) c fixed digit_not_separator by (auto simp: lit_def list_all_iff)
  then show ?thesis using False by (simp add: no_separator_no_size)
qed

theorem size_separators_witness:
  "lit ''150'' \<noteq> [] \<and> list_all ascii_digit (lit ''150'')
   \<and> lit ''120'' \<noteq> [] \<and> list_all ascii_digit (lit ''120'')
   \<and> extract_size ucd_excerpt (lit ''150cm '' @ [0x221A] @ lit '' 120cm'')
       = Inr (Some (lit ''150x120cm''))
   \<and> extract_size ucd_excerpt (lit ''150cm '' @ [0xF3] @ lit '' 120cm'')
       = Inr (Some (lit ''150x120cm''))
   \<and> extract_size ucd_excerpt (lit ''150cm '' @ [0xD7] @ lit '' 120cm'') = Inr None
   \<and> extract_size ucd_excerpt (lit ''150cm X 120cm'') = Inr None"
proof -
  have d: "lit ''150'' \<noteq> []" "list_all ascii_digit (lit ''150'')"
    "lit ''120'' \<noteq> []" "list_all ascii_digit (lit ''120'')"
    by (simp_all add: lit_def ascii_digit_def)
  show ?thesis
    using d size_separators [OF d, of ucd_excerpt "0x221A"]
      size_separators [OF d, of ucd_excerpt "0xF3"]
      size_separators [OF d, of ucd_excerpt "0xD7"]
      size_separators [OF d, of ucd_excerpt "0x58"]
    by (simp add: lit_def)
qed

text \<open>
  C10. A description that contains the letters \<open>uv\<close> in any letter case, anywhere, also
  inside another word, has UV protection.
\<close>

theorem uv_substring:
  assumes "sublist (lit ''uv'') (map ascii_lower d)"
  shows "\<exists>r. extract_cover_specs U d = Inr r \<and> has_uv_protection r"
proof -
  from assms obtain a m b where d: "d = a @ m @ b" and m: "map ascii_lower m = lit ''uv''"
    using map_sublist_split by blast
  have "uv_phrase U m" using uv_letters [OF m] by (simp add: uv_phrase_def)
  then have "occurs_in (uv_phrase U) d" using d by (auto simp: occurs_in_def)
  then have "re_search (uv_re U) d \<noteq> None" using uv_search by blast
  moreover obtain sz where "extract_size U d = Inr sz" using extract_size_total by blast
  ultimately show ?thesis by (simp add: extract_cover_specs_def)
qed

theorem uv_substring_witness:
  "sublist (lit ''uv'') (map ascii_lower (lit ''LoUvre window''))
   \<and> (\<exists>r. extract_cover_specs ucd_excerpt (lit ''LoUvre window'') = Inr r \<and> has_uv_protection r)"
proof -
  have a: "sublist (lit ''uv'') (map ascii_lower (lit ''LoUvre window''))"
    by (simp add: lit_def ascii_lower_def sublist_code(3))
  show ?thesis using a uv_substring [OF a, of ucd_excerpt] by blast
qed

section \<open>Further properties\<close>

text \<open>
  X1. Case insensitivity of the vehicle classifier: \<open>SUV\<close>, \<open>suv\<close> and \<open>Suv\<close> are all
  classified as SUV.
\<close>

theorem suv_any_case:
  "detect_vehicle_type U (lit ''SUV'') = Some (lit ''SUV'')
   \<and> detect_vehicle_type U (lit ''suv'') = Some (lit ''SUV'')
   \<and> detect_vehicle_type U (lit ''Suv'') = Some (lit ''SUV'')"
  by (simp add: model_defs)

text \<open>
  X2. Dimension normalisation: \<open>Size: 150cm x 120cm for SUV\<close> gives \<open>150x120cm\<close>, and a
  text without the unit gives no size.
\<close>

theorem size_normalised:
  "extract_size U (lit ''Size: 150cm x 120cm for SUV'') = Inr (Some (lit ''150x120cm''))
   \<and> extract_size U (lit ''150 x 120'') = Inr None"
  by (simp add: model_defs)

end
